theory Spec2Isabelle
  imports Complex_Main
begin

section \<open>PageRank (pagerank.py): data model\<close>

text \<open>
  A page is a file name. A Python \<open>dict\<close> is modelled by the list of its items in
  insertion order; a well-formed dictionary has no key twice (\<open>is_dict\<close>). A Python
  \<open>set\<close> of pages is modelled by the list of its elements in the order in which the
  interpreter iterates over it, without repetition. Python's floats are modelled by real
  numbers, so every arithmetic operation below is exact; Python's integers are \<open>int\<close>.
\<close>

type_synonym page = string

type_synonym 'v pydict = "(page \<times> 'v) list"

type_synonym corpus = "page list pydict"

datatype py_error = KeyError | ZeroDivisionError | IndexError | ValueError | NotImplementedError

definition keys :: "'v pydict \<Rightarrow> page list" where
  "keys d = map fst d"

definition vals :: "'v pydict \<Rightarrow> 'v list" where
  "vals d = map snd d"

definition is_dict :: "'v pydict \<Rightarrow> bool" where
  "is_dict d = distinct (keys d)"

text \<open>\<open>d[k]\<close>: raises KeyError when the key is absent.\<close>

definition getitem :: "'v pydict \<Rightarrow> page \<Rightarrow> py_error + 'v" where
  "getitem d k = (case map_of d k of None \<Rightarrow> Inl KeyError | Some v \<Rightarrow> Inr v)"

text \<open>\<open>d[k] = v\<close>: replaces the value of a present key in place, appends a new key.\<close>

fun setitem :: "'v pydict \<Rightarrow> page \<Rightarrow> 'v \<Rightarrow> 'v pydict" where
  "setitem [] k v = [(k, v)]"
| "setitem ((k', v') # d) k v =
     (if k' = k then (k', v) # d else (k', v') # setitem d k v)"

text \<open>\<open>a / b\<close> on numbers: raises ZeroDivisionError when the divisor is zero.\<close>

definition true_div :: "real \<Rightarrow> real \<Rightarrow> py_error + real" where
  "true_div a b = (if b = 0 then Inl ZeroDivisionError else Inr (a / b))"

text \<open>
  The Link Graph invariant of the data model: the graph is a dictionary, every link set
  is a set, no page lists itself, and every linked page is a key.
\<close>

definition valid_graph :: "corpus \<Rightarrow> bool" where
  "valid_graph g =
     (is_dict g \<and>
      list_all (\<lambda>(p, links). distinct links \<and> p \<notin> set links \<and> set links \<subseteq> set (keys g)) g)"

section \<open>Effects: the graph object and the random generator\<close>

text \<open>
  The functions receive the graph by reference and draw from the module-level random
  generator. The state a call can reach is therefore the graph object and the generator:
  \<open>random_src\<close> is the sequence of numbers that \<open>random()\<close> returns, \<open>random_pos\<close> the
  number of draws made so far. A computation maps the state to a result (an error or a
  value) and the state after it.
\<close>

record world =
  graph :: corpus
  random_src :: "nat \<Rightarrow> real"
  random_pos :: nat

type_synonym 'a py = "world \<Rightarrow> (py_error + 'a) \<times> world"

definition py_return :: "'a \<Rightarrow> 'a py" where
  "py_return x w = (Inr x, w)"

definition py_raise :: "py_error \<Rightarrow> 'a py" where
  "py_raise e w = (Inl e, w)"

definition py_bind :: "'a py \<Rightarrow> ('a \<Rightarrow> 'b py) \<Rightarrow> 'b py" where
  "py_bind m f w = (case m w of (Inl e, w') \<Rightarrow> (Inl e, w') | (Inr x, w') \<Rightarrow> f x w')"

text \<open>An expression that may raise but touches no state.\<close>

definition lift :: "py_error + 'a \<Rightarrow> 'a py" where
  "lift r w = (r, w)"

text \<open>Reading the graph object behind the parameter \<open>corpus\<close>.\<close>

definition read_corpus :: "corpus py" where
  "read_corpus w = (Inr (graph w), w)"

text \<open>\<open>corpus[page]\<close>\<close>

definition corpus_getitem :: "page \<Rightarrow> page list py" where
  "corpus_getitem page = py_bind read_corpus (\<lambda>g. lift (getitem g page))"

text \<open>\<open>len(corpus)\<close>\<close>

definition corpus_len :: "real py" where
  "corpus_len = py_bind read_corpus (\<lambda>g. py_return (real (length g)))"

text \<open>\<open>random.random()\<close>: the next number of the generator.\<close>

definition random :: "real py" where
  "random w = (Inr (random_src w (random_pos w)), w\<lparr>random_pos := Suc (random_pos w)\<rparr>)"

text \<open>A \<open>for\<close> loop over a list, with the variables the body assigns as loop state.\<close>

fun for_each :: "'a list \<Rightarrow> ('a \<Rightarrow> 's \<Rightarrow> 's py) \<Rightarrow> 's \<Rightarrow> 's py" where
  "for_each [] body s = py_return s"
| "for_each (x # xs) body s = py_bind (body x s) (for_each xs body)"

section \<open>transition\_model\<close>

text \<open>
  Lines 66 to 70: the page has no links, every page of the corpus gets \<open>1/len(corpus)\<close>.
\<close>

definition uniform_loop :: "real pydict \<Rightarrow> real pydict py" where
  "uniform_loop probabilities0 =
     py_bind read_corpus (\<lambda>g.
       for_each (keys g) (\<lambda>webpage probabilities.
         py_bind corpus_len (\<lambda>n.
         py_bind (lift (true_div 1 n)) (\<lambda>v.
         py_return (setitem probabilities webpage v)))) probabilities0)"

text \<open>Lines 75 and 76: the pages linked to by \<open>page\<close>.\<close>

definition linked_loop :: "page \<Rightarrow> real \<Rightarrow> real \<Rightarrow> real pydict \<Rightarrow> real pydict py" where
  "linked_loop page damping_factor prob_at_random probabilities0 =
     py_bind (corpus_getitem page) (\<lambda>links.
       for_each links (\<lambda>webpage probabilities.
         py_bind (corpus_getitem page) (\<lambda>links'.
         py_bind (lift (true_div damping_factor (real (length links')))) (\<lambda>v.
         py_return (setitem probabilities webpage (v + prob_at_random))))) probabilities0)"

text \<open>Lines 79 to 81: the pages of the corpus that \<open>page\<close> does not link to.\<close>

definition unlinked_loop :: "page \<Rightarrow> real \<Rightarrow> real pydict \<Rightarrow> real pydict py" where
  "unlinked_loop page prob_at_random probabilities0 =
     py_bind read_corpus (\<lambda>g.
       for_each (keys g) (\<lambda>webpage probabilities.
         py_bind (corpus_getitem page) (\<lambda>links.
         if webpage \<notin> set links
         then py_return (setitem probabilities webpage prob_at_random)
         else py_return probabilities)) probabilities0)"

definition transition_model :: "page \<Rightarrow> real \<Rightarrow> real pydict py" where
  "transition_model page damping_factor =
     py_bind (corpus_getitem page) (\<lambda>links.
       if length links = 0 then uniform_loop []
       else
         py_bind corpus_len (\<lambda>n.
         py_bind (lift (true_div (1 - damping_factor) n)) (\<lambda>prob_at_random.
         py_bind (linked_loop page damping_factor prob_at_random []) (\<lambda>probabilities.
         unlinked_loop page prob_at_random probabilities))))"

section \<open>random.choices\<close>

text \<open>
  \<open>random.choices(population, weights, k=1)[0]\<close> of Python's standard library
  (\<open>Lib/random.py\<close> of CPython 3.9 and later): the weights are accumulated
  (\<open>itertools.accumulate\<close>), a population and weights of different lengths raise
  ValueError, the total is the last cumulative weight (IndexError when there is none), a
  total that is not positive raises ValueError, and one number of the generator, scaled by
  the total, is located in the cumulative weights by \<open>bisect.bisect_right\<close> between
  \<open>0\<close> and \<open>len(population) - 1\<close>. The binary search is the loop of
  \<open>Lib/bisect.py\<close>.
\<close>

fun accumulate_from :: "real \<Rightarrow> real list \<Rightarrow> real list" where
  "accumulate_from acc [] = []"
| "accumulate_from acc (x # xs) = (acc + x) # accumulate_from (acc + x) xs"

definition accumulate :: "real list \<Rightarrow> real list" where
  "accumulate xs = (case xs of [] \<Rightarrow> [] | x # xs' \<Rightarrow> x # accumulate_from x xs')"

function bisect :: "real list \<Rightarrow> real \<Rightarrow> nat \<Rightarrow> nat \<Rightarrow> nat" where
  "bisect a x lo hi =
     (if lo < hi then
        (let mid = (lo + hi) div 2
         in if x < a ! mid then bisect a x lo mid else bisect a x (mid + 1) hi)
      else lo)"
  by pat_completeness auto
termination
  by (relation "measure (\<lambda>(a, x, lo, hi). hi - lo)") auto

declare bisect.simps [simp del]

definition choices :: "page list \<Rightarrow> real list \<Rightarrow> page py" where
  "choices population weights =
     (let n = length population; cum_weights = accumulate weights in
      if length cum_weights \<noteq> n then py_raise ValueError
      else if cum_weights = [] then py_raise IndexError
      else
        (let total = last cum_weights in
         if total \<le> 0 then py_raise ValueError
         else py_bind random (\<lambda>r.
                py_return (population ! bisect cum_weights (r * total) 0 (n - 1)))))"

section \<open>sample\_pagerank\<close>

text \<open>Lines 97 to 99.\<close>

definition init_visited :: "int pydict py" where
  "init_visited =
     py_bind read_corpus (\<lambda>g.
       for_each (keys g) (\<lambda>webpage visited. py_return (setitem visited webpage 0)) [])"

text \<open>Lines 102 and 103.\<close>

definition first_choice :: "page py" where
  "first_choice =
     py_bind corpus_len (\<lambda>n.
     py_bind (lift (true_div 1 n)) (\<lambda>v.
     py_bind read_corpus (\<lambda>g.
     choices (keys g) (replicate (length g) v))))"

text \<open>Lines 108 to 110: one step of the walk; the loop state is \<open>(choice, visited)\<close>.\<close>

definition sample_step :: "real \<Rightarrow> page \<times> int pydict \<Rightarrow> (page \<times> int pydict) py" where
  "sample_step damping_factor s =
     (case s of (choice, visited) \<Rightarrow>
        py_bind (transition_model choice damping_factor) (\<lambda>prob.
        py_bind (choices (keys prob) (vals prob)) (\<lambda>choice'.
        py_bind (lift (getitem visited choice')) (\<lambda>c.
        py_return (choice', setitem visited choice' (c + 1))))))"

text \<open>Lines 112 to 114.\<close>

definition rank_loop :: "int pydict \<Rightarrow> int \<Rightarrow> real pydict py" where
  "rank_loop visited n =
     for_each (keys visited) (\<lambda>webpage PageRank.
       py_bind (lift (getitem visited webpage)) (\<lambda>c.
       py_bind (lift (true_div (real_of_int c) (real_of_int n))) (\<lambda>v.
       py_return (setitem PageRank webpage v)))) []"

definition sample_pagerank :: "real \<Rightarrow> int \<Rightarrow> real pydict py" where
  "sample_pagerank damping_factor n =
     py_bind init_visited (\<lambda>visited.
     py_bind first_choice (\<lambda>choice.
     py_bind (for_each [0..<nat n] (\<lambda>sample. sample_step damping_factor) (choice, visited))
       (\<lambda>s. rank_loop (snd s) n)))"

section \<open>iterate\_pagerank\<close>

text \<open>Line 127: the body is the single statement \<open>raise NotImplementedError\<close>.\<close>

definition iterate_pagerank :: "real \<Rightarrow> real pydict py" where
  "iterate_pagerank damping_factor = py_raise NotImplementedError"

section \<open>crawl\<close>

text \<open>
  The directory is given by the entries \<open>os.listdir\<close> returns, each with the text that
  reading the file yields; \<open>findall\<close> stands for \<open>re.findall\<close> with the pattern of
  line 40, the list of link targets found in a text. \<open>set(links) - {filename}\<close> keeps
  one copy of each link and drops the file's own name. A directory that cannot be listed
  and a file that cannot be read make \<open>crawl\<close> raise before it returns a graph; they are
  not part of the model.
\<close>

definition endswith :: "string \<Rightarrow> string \<Rightarrow> bool" where
  "endswith s suffix =
     (length suffix \<le> length s \<and> drop (length s - length suffix) s = suffix)"

text \<open>A loop whose body may raise, over state that is local to the function.\<close>

fun try_fold :: "('a \<Rightarrow> 's \<Rightarrow> py_error + 's) \<Rightarrow> 'a list \<Rightarrow> 's \<Rightarrow> py_error + 's" where
  "try_fold body [] s = Inr s"
| "try_fold body (x # xs) s =
     (case body x s of Inl e \<Rightarrow> Inl e | Inr s' \<Rightarrow> try_fold body xs s')"

text \<open>Lines 35 to 41.\<close>

definition extract_links :: "(string \<Rightarrow> string list) \<Rightarrow> string \<times> string \<Rightarrow> corpus \<Rightarrow> corpus" where
  "extract_links findall entry pages =
     (case entry of (filename, contents) \<Rightarrow>
        if \<not> endswith filename ''.html'' then pages
        else setitem pages filename (removeAll filename (remdups (findall contents))))"

text \<open>Lines 44 to 48.\<close>

definition restrict_links :: "string \<Rightarrow> corpus \<Rightarrow> py_error + corpus" where
  "restrict_links filename pages =
     (case getitem pages filename of
        Inl e \<Rightarrow> Inl e
      | Inr links \<Rightarrow>
          Inr (setitem pages filename (filter (\<lambda>link. link \<in> set (keys pages)) links)))"

definition crawl :: "(string \<Rightarrow> string list) \<Rightarrow> (string \<times> string) list \<Rightarrow> py_error + corpus" where
  "crawl findall directory =
     (let pages = fold (extract_links findall) directory []
      in try_fold restrict_links (keys pages) pages)"

section \<open>Test scenarios of the specification\<close>

definition scenario_A :: corpus where
  "scenario_A = [(''1.html'', [''2.html'']), (''2.html'', [''1.html''])]"

definition scenario_B :: corpus where
  "scenario_B = [(''1.html'', []), (''2.html'', [''1.html''])]"

definition scenario_C :: corpus where
  "scenario_C = [(''1.html'', [])]"

definition start :: "corpus \<Rightarrow> (nat \<Rightarrow> real) \<Rightarrow> world" where
  "start g r = \<lparr>graph = g, random_src = r, random_pos = 0\<rparr>"

section \<open>Auxiliary notions for the proofs\<close>

text \<open>The state after \<open>k\<close> further draws from the generator.\<close>

definition drawn :: "world \<Rightarrow> nat \<Rightarrow> world" where
  "drawn w k = w\<lparr>random_pos := random_pos w + k\<rparr>"

text \<open>
  The invariant of the sampling loop after \<open>k\<close> steps: the current page is a page of
  the graph, the counters are those of the graph's pages, they are non-negative and sum
  to \<open>k\<close>.
\<close>

definition walk_inv :: "corpus \<Rightarrow> int \<Rightarrow> page \<times> int pydict \<Rightarrow> bool" where
  "walk_inv g k s =
     (fst s \<in> set (keys g) \<and> keys (snd s) = keys g \<and>
      sum_list (vals (snd s)) = k \<and> list_all (\<lambda>c. 0 \<le> c) (vals (snd s)))"

text \<open>
  The property of the link sets that the first loop of \<open>crawl\<close> establishes: each is
  a set and does not contain its own page.
\<close>

definition links_ok :: "corpus \<Rightarrow> bool" where
  "links_ok g = (\<forall>p ls. map_of g p = Some ls \<longrightarrow> distinct ls \<and> p \<notin> set ls)"

text \<open>
  A directory with two pages and a text file; the first page links to the second twice,
  to itself and to a page outside the directory.
\<close>

definition example_findall :: "string \<Rightarrow> string list" where
  "example_findall contents =
     (if contents = ''a'' then [''2.html'', ''1.html'', ''x.html'', ''2.html'']
      else if contents = ''b'' then [''1.html''] else [])"

definition example_directory :: "(string \<times> string) list" where
  "example_directory = [(''1.html'', ''a''), (''notes.txt'', ''c''), (''2.html'', ''b'')]"

section \<open>Dictionaries\<close>

lemma keys_setitem:
  "keys (setitem d k v) = (if k \<in> set (keys d) then keys d else keys d @ [k])"
  by (induction d) (force simp: keys_def)+

lemma map_of_setitem: "map_of (setitem d k v) = (map_of d)(k \<mapsto> v)"
  by (induction d) (auto simp: fun_eq_iff)

lemma setitem_fresh: "k \<notin> set (keys d) \<Longrightarrow> setitem d k v = d @ [(k, v)]"
  by (induction d) (auto simp: keys_def)

lemma fold_setitem_fresh:
  "distinct (filter P ks) \<Longrightarrow> set (filter P ks) \<inter> set (keys d) = {} \<Longrightarrow>
   fold (\<lambda>q pr. if P q then setitem pr q (f q) else pr) ks d
     = d @ map (\<lambda>q. (q, f q)) (filter P ks)"
proof (induction ks arbitrary: d)
  case Nil
  then show ?case by simp
next
  case (Cons k ks)
  show ?case
  proof (cases "P k")
    case True
    with Cons.prems have fresh: "k \<notin> set (keys d)" and dk: "k \<notin> set (filter P ks)"
      and d': "distinct (filter P ks)" by auto
    have "set (filter P ks) \<inter> set (keys (d @ [(k, f k)])) = {}"
      using Cons.prems True dk by (auto simp: keys_def)
    from Cons.IH [OF d' this] True fresh show ?thesis
      by (simp add: setitem_fresh)
  next
    case False
    with Cons show ?thesis by simp
  qed
qed

lemma corpus_getitem_run: "corpus_getitem p w = (getitem (graph w) p, w)"
  by (simp add: corpus_getitem_def py_bind_def read_corpus_def lift_def)

lemma corpus_len_run: "corpus_len w = (Inr (real (length (graph w))), w)"
  by (simp add: corpus_len_def py_bind_def read_corpus_def py_return_def)

lemma for_each_pure:
  "(\<And>x s. x \<in> set xs \<Longrightarrow> body x s w = (Inr (f x s), w)) \<Longrightarrow>
   for_each xs body s w = (Inr (fold f xs s), w)"
  by (induction xs arbitrary: s) (simp_all add: py_return_def py_bind_def)

lemma getitem_Inr_key: "getitem d k = Inr v \<Longrightarrow> k \<in> set (keys d)"
proof -
  assume "getitem d k = Inr v"
  then have "map_of d k = Some v"
    by (simp add: getitem_def split: option.splits)
  then have "(k, v) \<in> set d" by (rule map_of_SomeD)
  then show ?thesis unfolding keys_def by (simp add: rev_image_eqI)
qed

lemma getitem_key: "k \<in> set (keys d) \<Longrightarrow> \<exists>v. getitem d k = Inr v"
proof -
  assume "k \<in> set (keys d)"
  then have "map_of d k \<noteq> None"
    unfolding keys_def by (simp add: map_of_eq_None_iff)
  then show ?thesis by (auto simp: getitem_def split: option.splits)
qed

lemma getitem_not_key: "k \<notin> set (keys d) \<Longrightarrow> getitem d k = Inl KeyError"
proof -
  assume "k \<notin> set (keys d)"
  then have "map_of d k = None"
    unfolding keys_def by (simp add: map_of_eq_None_iff)
  then show ?thesis by (simp add: getitem_def)
qed

section \<open>Running transition\_model\<close>

lemma uniform_loop_run:
  "uniform_loop ps w =
     (Inr (fold (\<lambda>q pr. setitem pr q (1 / real (length (graph w)))) (keys (graph w)) ps), w)"
proof -
  have "for_each (keys (graph w)) (\<lambda>webpage probabilities.
         py_bind corpus_len (\<lambda>n.
         py_bind (lift (true_div 1 n)) (\<lambda>v.
         py_return (setitem probabilities webpage v)))) ps w
      = (Inr (fold (\<lambda>q pr. setitem pr q (1 / real (length (graph w)))) (keys (graph w)) ps), w)"
  proof (rule for_each_pure)
    fix x s assume "x \<in> set (keys (graph w))"
    then have "graph w \<noteq> []" by (auto simp: keys_def)
    then show "py_bind corpus_len (\<lambda>n.
         py_bind (lift (true_div 1 n)) (\<lambda>v.
         py_return (setitem s x v))) w = (Inr (setitem s x (1 / real (length (graph w)))), w)"
      by (simp add: py_bind_def corpus_len_run lift_def true_div_def py_return_def)
  qed
  then show ?thesis
    by (simp add: uniform_loop_def py_bind_def read_corpus_def)
qed

lemma linked_loop_run:
  assumes "getitem (graph w) p = Inr links"
  shows "linked_loop p d par ps w =
     (Inr (fold (\<lambda>q pr. setitem pr q (d / real (length links) + par)) links ps), w)"
proof -
  have "for_each links (\<lambda>webpage probabilities.
         py_bind (corpus_getitem p) (\<lambda>links'.
         py_bind (lift (true_div d (real (length links')))) (\<lambda>v.
         py_return (setitem probabilities webpage (v + par))))) ps w
      = (Inr (fold (\<lambda>q pr. setitem pr q (d / real (length links) + par)) links ps), w)"
  proof (rule for_each_pure)
    fix x s assume "x \<in> set links"
    then have "links \<noteq> []" by auto
    then show "py_bind (corpus_getitem p) (\<lambda>links'.
         py_bind (lift (true_div d (real (length links')))) (\<lambda>v.
         py_return (setitem s x (v + par)))) w
       = (Inr (setitem s x (d / real (length links) + par)), w)"
      using assms
      by (simp add: py_bind_def corpus_getitem_run lift_def true_div_def py_return_def)
  qed
  then show ?thesis using assms
    by (simp add: linked_loop_def py_bind_def corpus_getitem_run)
qed

lemma unlinked_loop_run:
  assumes "getitem (graph w) p = Inr links"
  shows "unlinked_loop p par ps w =
     (Inr (fold (\<lambda>q pr. if q \<notin> set links then setitem pr q par else pr) (keys (graph w)) ps), w)"
proof -
  have "for_each (keys (graph w)) (\<lambda>webpage probabilities.
         py_bind (corpus_getitem p) (\<lambda>links.
         if webpage \<notin> set links
         then py_return (setitem probabilities webpage par)
         else py_return probabilities)) ps w
      = (Inr (fold (\<lambda>q pr. if q \<notin> set links then setitem pr q par else pr) (keys (graph w)) ps), w)"
    by (rule for_each_pure)
       (use assms in \<open>simp add: py_bind_def corpus_getitem_run py_return_def\<close>)
  then show ?thesis
    by (simp add: unlinked_loop_def py_bind_def read_corpus_def)
qed

lemma transition_model_run_missing:
  "getitem (graph w) p = Inl e \<Longrightarrow> transition_model p d w = (Inl e, w)"
  by (simp add: transition_model_def py_bind_def corpus_getitem_run)

lemma transition_model_run_dangling:
  "getitem (graph w) p = Inr [] \<Longrightarrow>
   transition_model p d w =
     (Inr (fold (\<lambda>q pr. setitem pr q (1 / real (length (graph w)))) (keys (graph w)) []), w)"
  by (simp add: transition_model_def py_bind_def corpus_getitem_run uniform_loop_run)

lemma getitem_nonempty: "getitem g p = Inr v \<Longrightarrow> g \<noteq> []"
  by (auto simp: getitem_def)

lemma transition_model_run_linked:
  assumes "getitem (graph w) p = Inr links" and "links \<noteq> []"
  shows "transition_model p d w =
     (Inr (fold (\<lambda>q pr. if q \<notin> set links
                         then setitem pr q ((1 - d) / real (length (graph w))) else pr)
             (keys (graph w))
             (fold (\<lambda>q pr. setitem pr q
                      (d / real (length links) + (1 - d) / real (length (graph w))))
                links [])), w)"
  using assms getitem_nonempty [OF assms(1)]
  by (simp add: transition_model_def py_bind_def corpus_getitem_run corpus_len_run lift_def
      true_div_def linked_loop_run [OF assms(1)] unlinked_loop_run [OF assms(1)])

lemma fold_setitem_all:
  "distinct ks \<Longrightarrow> set ks \<inter> set (keys d) = {} \<Longrightarrow>
   fold (\<lambda>q pr. setitem pr q (f q)) ks d = d @ map (\<lambda>q. (q, f q)) ks"
  using fold_setitem_fresh [where P = "\<lambda>_. True" and ks = ks and d = d and f = f] by simp

lemma map_of_fold_setitem:
  "map_of (fold (\<lambda>q pr. if P q then setitem pr q (f q) else pr) ks d) q
     = (if q \<in> set ks \<and> P q then Some (f q) else map_of d q)"
  by (induction ks arbitrary: d) (auto simp: map_of_setitem)

lemma map_of_fold_setitem_all:
  "map_of (fold (\<lambda>q pr. setitem pr q (f q)) ks d) q
     = (if q \<in> set ks then Some (f q) else map_of d q)"
  using map_of_fold_setitem [where P = "\<lambda>_. True" and ks = ks and d = d and f = f and q = q]
  by simp

lemma linked_result:
  assumes "distinct ks" and "distinct links"
  shows "fold (\<lambda>q pr. if q \<notin> set links then setitem pr q b else pr) ks
           (fold (\<lambda>q pr. setitem pr q a) links [])
         = map (\<lambda>q. (q, a)) links @ map (\<lambda>q. (q, b)) (filter (\<lambda>q. q \<notin> set links) ks)"
proof -
  have 1: "fold (\<lambda>q pr. setitem pr q a) links [] = map (\<lambda>q. (q, a)) links"
    using fold_setitem_all [where f = "\<lambda>_. a" and d = "[]" and ks = links] assms(2)
    by (simp add: keys_def)
  have 2: "set (filter (\<lambda>q. q \<notin> set links) ks) \<inter> set (keys (map (\<lambda>q. (q, a)) links)) = {}"
    by (auto simp: keys_def)
  show ?thesis
    unfolding 1
    using fold_setitem_fresh [where P = "\<lambda>q. q \<notin> set links" and f = "\<lambda>_. b"
        and d = "map (\<lambda>q. (q, a)) links" and ks = ks, OF _ 2] assms(1)
    by simp
qed

lemma length_unlinked:
  assumes "distinct ks" and "distinct links" and "set links \<subseteq> set ks"
  shows "length (filter (\<lambda>q. q \<notin> set links) ks) + length links = length ks"
proof -
  have "length (filter (\<lambda>q. q \<notin> set links) ks) = card (set ks - set links)"
  proof -
    have "set (filter (\<lambda>q. q \<notin> set links) ks) = set ks - set links" by auto
    moreover have "distinct (filter (\<lambda>q. q \<notin> set links) ks)" using assms(1) by simp
    ultimately show ?thesis by (metis distinct_card)
  qed
  also have "\<dots> = card (set ks) - card (set links)"
    using assms(3) by (simp add: card_Diff_subset)
  also have "\<dots> = length ks - length links"
    using assms(1,2) by (simp add: distinct_card)
  finally have "length (filter (\<lambda>q. q \<notin> set links) ks) = length ks - length links" .
  moreover have "length links \<le> length ks"
    using assms by (metis card_mono distinct_card List.finite_set)
  ultimately show ?thesis by simp
qed

lemma sum_list_const: "sum_list (map (\<lambda>q. c) xs) = real (length xs) * (c::real)"
  by (induction xs) (simp_all add: algebra_simps)

lemma transition_model_returns:
  assumes "p \<in> set (keys (graph w))"
  shows "\<exists>m. transition_model p d w = (Inr m, w)"
proof -
  from getitem_key [OF assms] obtain links where l: "getitem (graph w) p = Inr links" ..
  show ?thesis
  proof (cases "links = []")
    case True
    with l transition_model_run_dangling show ?thesis by blast
  next
    case False
    with l transition_model_run_linked show ?thesis by blast
  qed
qed

lemma linked_lookup:
  "map_of (fold (\<lambda>q pr. if q \<notin> set links then setitem pr q b else pr) ks
             (fold (\<lambda>q pr. setitem pr q a) links [])) q
     = (if q \<in> set ks \<and> q \<notin> set links then Some b
        else if q \<in> set links then Some a else None)"
proof -
  have 1: "map_of (fold (\<lambda>q pr. setitem pr q a) links []) q
             = (if q \<in> set links then Some a else None)"
    using map_of_fold_setitem_all [where f = "\<lambda>_. a" and ks = links and d = "[]" and q = q]
    by simp
  have 2: "map_of (fold (\<lambda>q pr. if q \<notin> set links then setitem pr q b else pr) ks
             (fold (\<lambda>q pr. setitem pr q a) links [])) q
        = (if q \<in> set ks \<and> q \<notin> set links then Some b
           else map_of (fold (\<lambda>q pr. setitem pr q a) links []) q)"
    by (rule map_of_fold_setitem [where P = "\<lambda>q. q \<notin> set links" and f = "\<lambda>_. b"])
  show ?thesis unfolding 2 1 ..
qed

lemma vals_append: "vals (a @ b) = vals a @ vals b"
  by (simp add: vals_def)

lemma keys_append: "keys (a @ b) = keys a @ keys b"
  by (simp add: keys_def)

lemma keys_map_const: "keys (map (\<lambda>q. (q, c)) xs) = xs"
  by (simp add: keys_def comp_def)

lemma vals_map_const: "vals (map (\<lambda>q. (q, c)) xs) = map (\<lambda>q. c) xs"
  by (simp add: vals_def comp_def)

lemma graph_links:
  assumes "valid_graph g" and "getitem g p = Inr links"
  shows "distinct links \<and> p \<notin> set links \<and> set links \<subseteq> set (keys g)"
proof -
  from assms(2) have "map_of g p = Some links"
    by (simp add: getitem_def split: option.splits)
  then have "(p, links) \<in> set g" by (rule map_of_SomeD)
  with assms(1) show ?thesis
    unfolding valid_graph_def list_all_iff by blast
qed

lemma uniform_distribution:
  assumes "is_dict g" and "g \<noteq> []"
  defines "m \<equiv> map (\<lambda>q. (q, 1 / real (length g))) (keys g)"
  shows "keys m = keys g" and "\<forall>v \<in> set (vals m). 0 \<le> v" and "sum_list (vals m) = 1"
proof -
  show "keys m = keys g" by (simp add: m_def keys_map_const)
  show "\<forall>v \<in> set (vals m). 0 \<le> v" by (auto simp: m_def vals_map_const)
  have "length (keys g) = length g" by (simp add: keys_def)
  with assms(2) show "sum_list (vals m) = 1"
    by (simp add: m_def vals_map_const sum_list_const)
qed

lemma linked_distribution:
  assumes "distinct ks" and "distinct links" and "set links \<subseteq> set ks" and "links \<noteq> []"
    and "0 < d" and "d < 1" and "n = length ks"
  defines "m \<equiv> map (\<lambda>q. (q, d / real (length links) + (1 - d) / real n)) links
               @ map (\<lambda>q. (q, (1 - d) / real n)) (filter (\<lambda>q. q \<notin> set links) ks)"
  shows "distinct (keys m)" and "set (keys m) = set ks"
    and "\<forall>v \<in> set (vals m). 0 \<le> v" and "sum_list (vals m) = 1"
proof -
  have k: "keys m = links @ filter (\<lambda>q. q \<notin> set links) ks"
    by (simp add: m_def keys_append keys_map_const)
  show "distinct (keys m)" using assms(1,2) by (auto simp: k)
  show "set (keys m) = set ks" using assms(3) by (auto simp: k)
  have npos: "0 < n" using assms(3,4,7) by (cases ks) auto
  have v: "vals m = map (\<lambda>q. d / real (length links) + (1 - d) / real n) links
               @ map (\<lambda>q. (1 - d) / real n) (filter (\<lambda>q. q \<notin> set links) ks)"
    by (simp add: m_def vals_append vals_map_const)
  show "\<forall>v \<in> set (vals m). 0 \<le> v"
    using assms(5,6) by (auto simp: v intro!: add_nonneg_nonneg)
  let ?u = "length (filter (\<lambda>q. q \<notin> set links) ks)"
  let ?l = "length links"
  have len: "real ?u + real ?l = real n"
    using length_unlinked [OF assms(1,2,3)] assms(7) by (metis of_nat_add)
  have lpos: "0 < ?l" using assms(4) by simp
  have "sum_list (vals m) = real ?l * (d / real ?l + (1 - d) / real n) + real ?u * ((1 - d) / real n)"
    by (simp add: v sum_list_const)
  also have "\<dots> = d + (real ?l + real ?u) * ((1 - d) / real n)"
    using lpos by (simp add: algebra_simps)
  also have "\<dots> = d + real n * ((1 - d) / real n)"
    using len by (simp add: add.commute)
  also have "\<dots> = 1" using npos by simp
  finally show "sum_list (vals m) = 1" .
qed

lemma transition_model_distribution:
  assumes "valid_graph (graph w)" and "p \<in> set (keys (graph w))" and "0 < d" and "d < 1"
  shows "\<exists>m. transition_model p d w = (Inr m, w) \<and> is_dict m \<and>
           set (keys m) = set (keys (graph w)) \<and>
           (\<forall>v \<in> set (vals m). 0 \<le> v) \<and> sum_list (vals m) = 1"
proof -
  let ?g = "graph w"
  from getitem_key [OF assms(2)] obtain links where l: "getitem ?g p = Inr links" ..
  have dict: "is_dict ?g" using assms(1) by (simp add: valid_graph_def)
  have ne: "?g \<noteq> []" using l by (rule getitem_nonempty)
  show ?thesis
  proof (cases "links = []")
    case True
    let ?m = "map (\<lambda>q. (q, 1 / real (length ?g))) (keys ?g)"
    have "fold (\<lambda>q pr. setitem pr q (1 / real (length ?g))) (keys ?g) [] = ?m"
      using fold_setitem_all [where d = "[]" and ks = "keys ?g"
          and f = "\<lambda>_. 1 / real (length ?g)"] dict
      by (simp add: is_dict_def keys_def)
    with transition_model_run_dangling [of w p d] l True
    have run: "transition_model p d w = (Inr ?m, w)" by simp
    have "is_dict ?m" using dict by (simp add: is_dict_def keys_map_const)
    with run uniform_distribution [OF dict ne] show ?thesis
      by (intro exI [of _ ?m]) simp
  next
    case False
    from graph_links [OF assms(1) l]
    have dl: "distinct links" and sub: "set links \<subseteq> set (keys ?g)" by simp_all
    have dk: "distinct (keys ?g)" using dict by (simp add: is_dict_def)
    have n: "length ?g = length (keys ?g)" by (simp add: keys_def)
    let ?m = "map (\<lambda>q. (q, d / real (length links) + (1 - d) / real (length ?g))) links
               @ map (\<lambda>q. (q, (1 - d) / real (length ?g)))
                   (filter (\<lambda>q. q \<notin> set links) (keys ?g))"
    have run: "transition_model p d w = (Inr ?m, w)"
      using transition_model_run_linked [OF l False, of d] linked_result [OF dk dl] by simp
    from linked_distribution [OF dk dl sub False assms(3,4) n] run
    show ?thesis unfolding is_dict_def by (intro exI [of _ ?m]) simp
  qed
qed

lemma valid_scenario_A: "valid_graph scenario_A"
  by (simp add: valid_graph_def scenario_A_def is_dict_def keys_def)

lemma valid_scenario_C: "valid_graph scenario_C"
  by (simp add: valid_graph_def scenario_C_def is_dict_def keys_def)

lemma graph_start: "graph (start g r) = g"
  by (simp add: start_def)

section \<open>Running sample\_pagerank\<close>

lemma length_accumulate_from: "length (accumulate_from a xs) = length xs"
  by (induction xs arbitrary: a) simp_all

lemma last_accumulate_from:
  "xs \<noteq> [] \<Longrightarrow> last (accumulate_from a xs) = a + sum_list xs"
proof (induction xs arbitrary: a)
  case Nil
  then show ?case by simp
next
  case (Cons x xs)
  show ?case
  proof (cases "xs = []")
    case True
    then show ?thesis by simp
  next
    case False
    have ne: "accumulate_from (a + x) xs \<noteq> []"
      using False by (cases xs) simp_all
    from Cons.IH [OF False, of "a + x"] ne show ?thesis by (simp add: add.assoc)
  qed
qed

lemma length_accumulate: "length (accumulate xs) = length xs"
  by (cases xs) (simp_all add: accumulate_def length_accumulate_from)

lemma last_accumulate: "xs \<noteq> [] \<Longrightarrow> last (accumulate xs) = sum_list xs"
proof (cases xs)
  case Nil
  assume "xs \<noteq> []"
  with Nil show ?thesis by simp
next
  case (Cons x xs')
  show ?thesis
  proof (cases "xs' = []")
    case True
    with Cons show ?thesis by (simp add: accumulate_def)
  next
    case False
    have ne: "accumulate_from x xs' \<noteq> []"
      using False by (cases xs') simp_all
    from last_accumulate_from [OF False, of x] ne Cons show ?thesis
      by (simp add: accumulate_def)
  qed
qed

lemma bisect_stop: "\<not> lo < hi \<Longrightarrow> bisect a x lo hi = lo"
  by (subst bisect.simps) simp

lemma bisect_left:
  "lo < hi \<Longrightarrow> x < a ! ((lo + hi) div 2) \<Longrightarrow>
   bisect a x lo hi = bisect a x lo ((lo + hi) div 2)"
  by (subst bisect.simps) (simp add: Let_def)

lemma bisect_right:
  "lo < hi \<Longrightarrow> \<not> x < a ! ((lo + hi) div 2) \<Longrightarrow>
   bisect a x lo hi = bisect a x ((lo + hi) div 2 + 1) hi"
  by (subst bisect.simps) (simp add: Let_def)

lemma bisect_bounds: "lo \<le> hi \<Longrightarrow> lo \<le> bisect a x lo hi \<and> bisect a x lo hi \<le> hi"
proof (induction a x lo hi rule: bisect.induct)
  case (1 a x lo hi)
  show ?case
  proof (cases "lo < hi")
    case False
    then show ?thesis using "1.prems" by (simp add: bisect_stop)
  next
    case True
    define mid where "mid = (lo + hi) div 2"
    have m: "lo \<le> mid" "mid < hi" using True by (simp_all add: mid_def)
    show ?thesis
    proof (cases "x < a ! mid")
      case lt: True
      have "lo \<le> bisect a x lo mid \<and> bisect a x lo mid \<le> mid"
        using "1.IH"(1) [of mid] True lt m by (simp add: mid_def)
      moreover have "bisect a x lo hi = bisect a x lo mid"
        using True lt unfolding mid_def by (rule bisect_left)
      ultimately show ?thesis using m by simp
    next
      case ge: False
      have "mid + 1 \<le> bisect a x (mid + 1) hi \<and> bisect a x (mid + 1) hi \<le> hi"
        using "1.IH"(2) [of mid] True ge m by (simp add: mid_def)
      moreover have "bisect a x lo hi = bisect a x (mid + 1) hi"
        using True ge unfolding mid_def by (rule bisect_right)
      ultimately show ?thesis using m by simp
    qed
  qed
qed

lemma drawn_0: "drawn w 0 = w"
  by (simp add: drawn_def)

lemma drawn_drawn: "drawn (drawn w a) b = drawn w (a + b)"
  by (simp add: drawn_def add.assoc)

lemma graph_drawn: "graph (drawn w k) = graph w"
  by (simp add: drawn_def)

lemma random_run: "random w = (Inr (random_src w (random_pos w)), drawn w 1)"
  by (simp add: random_def drawn_def)

lemma choices_run:
  assumes "length population = length weights" and "weights \<noteq> []"
    and "0 < sum_list weights"
  shows "\<exists>c. choices population weights w = (Inr c, drawn w 1) \<and> c \<in> set population"
proof -
  let ?cum = "accumulate weights"
  let ?i = "bisect ?cum (random_src w (random_pos w) * last ?cum) 0 (length population - 1)"
  have len: "length ?cum = length population"
    using assms(1) by (simp add: length_accumulate)
  have ne: "?cum \<noteq> []" using assms(2) len assms(1) by (cases ?cum) auto
  have tot: "\<not> last ?cum \<le> 0" using assms(2,3) by (simp add: last_accumulate)
  have run: "choices population weights w = (Inr (population ! ?i), drawn w 1)"
    using len ne tot
    by (simp add: choices_def Let_def py_bind_def random_run py_return_def)
  have "?i \<le> length population - 1"
    using bisect_bounds [of 0 "length population - 1"] by simp
  moreover have "0 < length population" using assms(1,2) by simp
  ultimately have "?i < length population" by linarith
  then have "population ! ?i \<in> set population" by simp
  with run show ?thesis by blast
qed

lemma fold_setitem_nonempty:
  "ks \<noteq> [] \<or> d \<noteq> [] \<Longrightarrow> fold (\<lambda>q v. setitem v q c) ks d \<noteq> []"
proof (induction ks arbitrary: d)
  case Nil
  then show ?case by simp
next
  case (Cons k ks)
  have "setitem d k c \<noteq> []" by (cases d) (auto split: if_splits)
  with Cons.IH [of "setitem d k c"] show ?case by simp
qed

lemma init_visited_run:
  "init_visited w = (Inr (fold (\<lambda>q v. setitem v q 0) (keys (graph w)) []), w)"
proof -
  have "for_each (keys (graph w)) (\<lambda>webpage visited. py_return (setitem visited webpage 0)) [] w
      = (Inr (fold (\<lambda>q v. setitem v q 0) (keys (graph w)) []), w)"
    by (rule for_each_pure) (simp add: py_return_def)
  then show ?thesis by (simp add: init_visited_def py_bind_def read_corpus_def)
qed

lemma init_visited_dict:
  "is_dict g \<Longrightarrow> fold (\<lambda>q v. setitem v q (0::int)) (keys g) [] = map (\<lambda>q. (q, 0)) (keys g)"
  using fold_setitem_all [where d = "[]" and ks = "keys g" and f = "\<lambda>_. 0::int"]
  by (simp add: is_dict_def keys_def)

lemma first_choice_empty:
  "graph w = [] \<Longrightarrow> first_choice w = (Inl ZeroDivisionError, w)"
  by (simp add: first_choice_def py_bind_def corpus_len_run lift_def true_div_def)

lemma first_choice_run:
  assumes "graph w \<noteq> []"
  shows "\<exists>c. first_choice w = (Inr c, drawn w 1) \<and> c \<in> set (keys (graph w))"
proof -
  let ?n = "length (graph w)"
  let ?ws = "replicate ?n (1 / real ?n)"
  have "sum_list ?ws = 1" using assms by (simp add: sum_list_replicate)
  then have pos: "0 < sum_list ?ws" by simp
  have ne: "?ws \<noteq> []" using assms by simp
  have len: "length (keys (graph w)) = length ?ws" by (simp add: keys_def)
  have "first_choice w = choices (keys (graph w)) ?ws w"
    using assms
    by (simp add: first_choice_def py_bind_def corpus_len_run lift_def true_div_def
        read_corpus_def)
  with choices_run [OF len ne pos, of w] show ?thesis by simp
qed

lemma keys_setitem_present: "k \<in> set (keys d) \<Longrightarrow> keys (setitem d k v) = keys d"
  by (simp add: keys_setitem)

lemma sum_vals_setitem:
  fixes d :: "int pydict"
  shows "map_of d k = Some c \<Longrightarrow> sum_list (vals (setitem d k v)) = sum_list (vals d) - c + v"
  by (induction d) (auto simp: vals_def)

lemma set_vals_setitem: "set (vals (setitem d k v)) \<subseteq> insert v (set (vals d))"
proof (induction d)
  case Nil
  then show ?case by (simp add: vals_def)
next
  case (Cons a d)
  obtain k' v' where a: "a = (k', v')" by (cases a)
  show ?case
  proof (cases "k' = k")
    case True
    then show ?thesis by (auto simp: a vals_def)
  next
    case False
    have "set (vals (setitem (a # d) k v)) = insert v' (set (vals (setitem d k v)))"
      using False by (simp add: a vals_def)
    also have "\<dots> \<subseteq> insert v' (insert v (set (vals d)))"
      using Cons.IH by blast
    also have "\<dots> = insert v (set (vals (a # d)))"
      by (auto simp: a vals_def)
    finally show ?thesis .
  qed
qed

lemma getitem_map_of: "getitem d k = Inr v \<longleftrightarrow> map_of d k = Some v"
  by (simp add: getitem_def split: option.splits)

lemma sample_step_run:
  assumes "valid_graph (graph w)" and "0 < d" and "d < 1" and "walk_inv (graph w) k s"
  shows "\<exists>s'. sample_step d s w = (Inr s', drawn w 1) \<and> walk_inv (graph w) (k + 1) s'"
proof -
  obtain choice visited where s: "s = (choice, visited)" by (cases s)
  from assms(4) s have ck: "choice \<in> set (keys (graph w))"
    and kv: "keys visited = keys (graph w)"
    and sv: "sum_list (vals visited) = k"
    and pv: "list_all (\<lambda>c. 0 \<le> c) (vals visited)"
    by (simp_all add: walk_inv_def)
  from transition_model_distribution [OF assms(1) ck assms(2,3)] obtain m where
    run: "transition_model choice d w = (Inr m, w)"
    and km: "set (keys m) = set (keys (graph w))"
    and sm: "sum_list (vals m) = 1"
    by blast
  have len: "length (keys m) = length (vals m)" by (simp add: keys_def vals_def)
  have ne: "vals m \<noteq> []" using sm by auto
  have pos: "0 < sum_list (vals m)" using sm by simp
  from choices_run [OF len ne pos, of w] obtain c' where
    ch: "choices (keys m) (vals m) w = (Inr c', drawn w 1)" and cm: "c' \<in> set (keys m)"
    by blast
  have cv: "c' \<in> set (keys visited)" using cm km kv by simp
  from getitem_key [OF cv] obtain c where gc: "getitem visited c' = Inr c" ..
  then have mc: "map_of visited c' = Some c" by (simp add: getitem_map_of)
  let ?v' = "setitem visited c' (c + 1)"
  have step: "sample_step d s w = (Inr (c', ?v'), drawn w 1)"
    using run ch gc by (simp add: sample_step_def s py_bind_def lift_def py_return_def)
  have "(c', c) \<in> set visited" using mc by (rule map_of_SomeD)
  then have "c \<in> set (vals visited)" unfolding vals_def by (simp add: rev_image_eqI)
  with pv have c0: "0 \<le> c" by (simp add: list_all_iff)
  have p': "list_all (\<lambda>c. 0 \<le> c) (vals ?v')"
    using set_vals_setitem [of visited c' "c + 1"] pv c0 by (auto simp: list_all_iff)
  have "walk_inv (graph w) (k + 1) (c', ?v')"
    using cm km kv cv sv p' by (simp add: walk_inv_def keys_setitem_present sum_vals_setitem [OF mc])
  with step show ?thesis by blast
qed

lemma walk_run:
  assumes "valid_graph (graph w)" and "0 < d" and "d < 1" and "walk_inv (graph w) k s"
  shows "\<exists>s'. for_each xs (\<lambda>sample. sample_step d) s w = (Inr s', drawn w (length xs)) \<and>
           walk_inv (graph w) (k + int (length xs)) s'"
  using assms
proof (induction xs arbitrary: w k s)
  case Nil
  then show ?case by (simp add: py_return_def drawn_0)
next
  case (Cons x xs)
  from sample_step_run [OF Cons.prems] obtain s1 where
    one: "sample_step d s w = (Inr s1, drawn w 1)" and inv1: "walk_inv (graph w) (k + 1) s1"
    by blast
  have g: "graph (drawn w 1) = graph w" by (rule graph_drawn)
  from Cons.IH [of "drawn w 1" "k + 1" s1] Cons.prems(1,2,3) inv1 g obtain s' where
    rest: "for_each xs (\<lambda>sample. sample_step d) s1 (drawn w 1)
             = (Inr s', drawn (drawn w 1) (length xs))"
    and inv': "walk_inv (graph w) (k + 1 + int (length xs)) s'"
    by auto
  have "for_each (x # xs) (\<lambda>sample. sample_step d) s w = (Inr s', drawn w (length (x # xs)))"
    using one rest by (simp add: py_bind_def drawn_drawn)
  moreover have "walk_inv (graph w) (k + int (length (x # xs))) s'"
  proof -
    have "k + 1 + int (length xs) = k + int (length (x # xs))" by simp
    with inv' show ?thesis by simp
  qed
  ultimately show ?case by blast
qed

lemma rank_loop_run:
  assumes "is_dict visited" and "n \<noteq> 0"
  shows "rank_loop visited n w =
           (Inr (map (\<lambda>(k, c). (k, real_of_int c / real_of_int n)) visited), w)"
proof -
  define g where "g q = real_of_int (the (map_of visited q)) / real_of_int n" for q
  have body: "py_bind (lift (getitem visited x)) (\<lambda>c.
       py_bind (lift (true_div (real_of_int c) (real_of_int n))) (\<lambda>v.
       py_return (setitem s x v))) w = (Inr (setitem s x (g x)), w)"
    if "x \<in> set (keys visited)" for x s
  proof -
    from getitem_key [OF that] obtain c where c: "getitem visited x = Inr c" ..
    then have "map_of visited x = Some c" by (simp add: getitem_map_of)
    with c assms(2) show ?thesis
      by (simp add: py_bind_def lift_def true_div_def py_return_def g_def)
  qed
  have "rank_loop visited n w = (Inr (fold (\<lambda>q pr. setitem pr q (g q)) (keys visited) []), w)"
    unfolding rank_loop_def by (rule for_each_pure) (rule body)
  moreover have "fold (\<lambda>q pr. setitem pr q (g q)) (keys visited) []
      = map (\<lambda>q. (q, g q)) (keys visited)"
    using fold_setitem_all [where d = "[]" and ks = "keys visited" and f = g] assms(1)
    by (simp add: is_dict_def keys_def)
  moreover have "map (\<lambda>q. (q, g q)) (keys visited)
      = map (\<lambda>(k, c). (k, real_of_int c / real_of_int n)) visited"
  proof -
    have "map_of visited k = Some c" if "(k, c) \<in> set visited" for k c
      using assms(1) that unfolding is_dict_def keys_def by (simp add: map_of_is_SomeI)
    then show ?thesis by (auto simp: keys_def g_def)
  qed
  ultimately show ?thesis by simp
qed

lemma rank_loop_zero:
  assumes "visited \<noteq> []"
  shows "rank_loop visited 0 w = (Inl ZeroDivisionError, w)"
proof -
  from assms obtain k c rest where v: "visited = (k, c) # rest"
    by (cases visited) auto
  show ?thesis
    by (simp add: v rank_loop_def keys_def py_bind_def lift_def getitem_def true_div_def)
qed

lemma sample_pagerank_empty:
  assumes "graph w = []"
  shows "sample_pagerank d n w = (Inl ZeroDivisionError, w)"
  using assms
  by (simp add: sample_pagerank_def py_bind_def init_visited_run first_choice_empty)

lemma sample_pagerank_zero:
  assumes "graph w \<noteq> []"
  shows "sample_pagerank d 0 w = (Inl ZeroDivisionError, drawn w 1)"
proof -
  let ?v = "fold (\<lambda>q v. setitem v q (0::int)) (keys (graph w)) []"
  have "keys (graph w) \<noteq> []" using assms by (simp add: keys_def)
  then have ne: "?v \<noteq> []" by (simp add: fold_setitem_nonempty)
  from first_choice_run [OF assms] obtain c where
    c: "first_choice w = (Inr c, drawn w 1)" by blast
  show ?thesis
    using c rank_loop_zero [OF ne]
    by (simp add: sample_pagerank_def py_bind_def init_visited_run py_return_def)
qed

lemma sample_pagerank_negative:
  assumes "graph w \<noteq> []" and "is_dict (graph w)" and "n < 0"
  shows "sample_pagerank d n w = (Inr (map (\<lambda>q. (q, 0)) (keys (graph w))), drawn w 1)"
proof -
  let ?v = "map (\<lambda>q. (q, 0::int)) (keys (graph w))"
  have dv: "is_dict ?v" using assms(2) by (simp add: is_dict_def keys_def comp_def)
  have n0: "n \<noteq> 0" and nn: "nat n = 0" using assms(3) by simp_all
  from first_choice_run [OF assms(1)] obtain c where
    c: "first_choice w = (Inr c, drawn w 1)" by blast
  have "sample_pagerank d n w = rank_loop ?v n (drawn w 1)"
    using c nn
    by (simp add: sample_pagerank_def py_bind_def init_visited_run
        init_visited_dict [OF assms(2)] py_return_def)
  also have "\<dots> = (Inr (map (\<lambda>(k, c). (k, real_of_int c / real_of_int n)) ?v), drawn w 1)"
    by (rule rank_loop_run [OF dv n0])
  finally show ?thesis by (simp add: comp_def)
qed

lemma sample_pagerank_result:
  assumes "valid_graph (graph w)" and "graph w \<noteq> []" and "0 < d" and "d < 1" and "1 \<le> n"
  shows "\<exists>visited. sample_pagerank d n w =
             (Inr (map (\<lambda>(k, c). (k, real_of_int c / real_of_int n)) visited),
              drawn w (1 + nat n)) \<and>
           keys visited = keys (graph w) \<and> sum_list (vals visited) = n \<and>
           list_all (\<lambda>c. 0 \<le> c) (vals visited)"
proof -
  let ?g = "graph w"
  let ?v0 = "map (\<lambda>q. (q, 0::int)) (keys ?g)"
  have dict: "is_dict ?g" using assms(1) by (simp add: valid_graph_def)
  from first_choice_run [OF assms(2)] obtain c where
    c: "first_choice w = (Inr c, drawn w 1)" and ck: "c \<in> set (keys ?g)" by blast
  have inv0: "walk_inv (graph (drawn w 1)) 0 (c, ?v0)"
    using ck by (simp add: walk_inv_def graph_drawn keys_def vals_def comp_def list_all_iff)
  have vg: "valid_graph (graph (drawn w 1))" using assms(1) by (simp add: graph_drawn)
  from walk_run [OF vg assms(3,4) inv0, of "[0..<nat n]"] obtain s' where
    walk: "for_each [0..<nat n] (\<lambda>sample. sample_step d) (c, ?v0) (drawn w 1)
             = (Inr s', drawn (drawn w 1) (nat n))"
    and inv: "walk_inv ?g (int (nat n)) s'"
    by (auto simp: graph_drawn)
  from inv assms(5) have kv: "keys (snd s') = keys ?g" and sv: "sum_list (vals (snd s')) = n"
    and pv: "list_all (\<lambda>c. 0 \<le> c) (vals (snd s'))"
    by (simp_all add: walk_inv_def)
  have dv: "is_dict (snd s')" using dict kv by (simp add: is_dict_def)
  have n0: "n \<noteq> 0" using assms(5) by simp
  have "sample_pagerank d n w = rank_loop (snd s') n (drawn w (1 + nat n))"
    using c walk
    by (simp add: sample_pagerank_def py_bind_def init_visited_run
        init_visited_dict [OF dict] drawn_drawn)
  with rank_loop_run [OF dv n0] kv sv pv show ?thesis by (intro exI [of _ "snd s'"]) simp
qed



lemma sample_pagerank_single_page:
  assumes "graph w = scenario_C" and "0 < d" and "d < 1" and "1 \<le> n"
  shows "fst (sample_pagerank d n w) = Inr [(''1.html'', 1)]"
proof -
  have vg: "valid_graph (graph w)" using assms(1) by (simp add: valid_scenario_C)
  have ne: "graph w \<noteq> []" using assms(1) by (simp add: scenario_C_def)
  from sample_pagerank_result [OF vg ne assms(2,3,4)] obtain visited where
    run: "sample_pagerank d n w =
            (Inr (map (\<lambda>(k, c). (k, real_of_int c / real_of_int n)) visited),
             drawn w (1 + nat n))"
    and kv: "keys visited = keys (graph w)" and sv: "sum_list (vals visited) = n"
    by blast
  from kv assms(1) have "map fst visited = [''1.html'']"
    by (simp add: keys_def scenario_C_def)
  then obtain c where v: "visited = [(''1.html'', c)]"
    by (cases visited) auto
  with sv have "c = n" by (simp add: vals_def)
  with v run assms(4) show ?thesis by simp
qed

section \<open>Running crawl\<close>

lemma is_dict_setitem: "is_dict d \<Longrightarrow> is_dict (setitem d k v)"
  by (simp add: is_dict_def keys_setitem)

lemma links_ok_setitem:
  assumes "links_ok pages" and "distinct ls" and "k \<notin> set ls"
  shows "links_ok (setitem pages k ls)"
  unfolding links_ok_def
proof (intro allI impI)
  fix p ls'
  assume "map_of (setitem pages k ls) p = Some ls'"
  then have m: "((map_of pages)(k \<mapsto> ls)) p = Some ls'" by (simp only: map_of_setitem)
  show "distinct ls' \<and> p \<notin> set ls'"
  proof (cases "p = k")
    case True
    with m have "ls' = ls" by simp
    with assms(2,3) True show ?thesis by simp
  next
    case False
    with m have "map_of pages p = Some ls'" by simp
    with assms(1) show ?thesis unfolding links_ok_def by blast
  qed
qed

lemma extract_links_ok:
  assumes "is_dict pages" and "links_ok pages"
  shows "is_dict (extract_links findall entry pages) \<and>
         links_ok (extract_links findall entry pages)"
proof -
  obtain filename contents where e: "entry = (filename, contents)" by (cases entry)
  let ?ls = "removeAll filename (remdups (findall contents))"
  have d: "distinct ?ls" by (simp add: distinct_removeAll)
  have n: "filename \<notin> set ?ls" by simp
  show ?thesis
  proof (cases "endswith filename ''.html''")
    case True
    then have "extract_links findall entry pages = setitem pages filename ?ls"
      unfolding extract_links_def e by simp
    with assms is_dict_setitem [OF assms(1)] links_ok_setitem [OF assms(2) d n]
    show ?thesis by simp
  next
    case False
    then have "extract_links findall entry pages = pages"
      unfolding extract_links_def e by simp
    with assms show ?thesis by simp
  qed
qed

lemma extract_all_ok:
  "is_dict pages \<Longrightarrow> links_ok pages \<Longrightarrow>
   is_dict (fold (extract_links findall) directory pages) \<and>
   links_ok (fold (extract_links findall) directory pages)"
proof (induction directory arbitrary: pages)
  case Nil
  then show ?case by simp
next
  case (Cons entry directory)
  from extract_links_ok [OF Cons.prems, of findall entry]
  have "is_dict (extract_links findall entry pages)"
    and "links_ok (extract_links findall entry pages)" by simp_all
  from Cons.IH [OF this] show ?case by simp
qed

lemma restrict_links_run:
  assumes "k \<in> set (keys pages)"
  shows "\<exists>ls. map_of pages k = Some ls \<and>
           restrict_links k pages
             = Inr (setitem pages k (filter (\<lambda>link. link \<in> set (keys pages)) ls))"
proof -
  from getitem_key [OF assms] obtain ls where g: "getitem pages k = Inr ls" ..
  then have "map_of pages k = Some ls" by (simp add: getitem_map_of)
  with g show ?thesis by (simp add: restrict_links_def)
qed

lemma restrict_all:
  assumes "set ks \<subseteq> set (keys pages)" and "links_ok pages"
    and "\<forall>p ls. map_of pages p = Some ls \<longrightarrow> p \<in> D \<longrightarrow> set ls \<subseteq> set (keys pages)"
  shows "\<exists>g. try_fold restrict_links ks pages = Inr g \<and> keys g = keys pages \<and> links_ok g \<and>
           (\<forall>p ls. map_of g p = Some ls \<longrightarrow> p \<in> D \<union> set ks \<longrightarrow> set ls \<subseteq> set (keys pages))"
  using assms
proof (induction ks arbitrary: pages D)
  case Nil
  then show ?case by simp
next
  case (Cons k ks)
  from Cons.prems(1) have kk: "k \<in> set (keys pages)" by simp
  from restrict_links_run [OF kk] obtain ls0 where
    l0: "map_of pages k = Some ls0"
    and r: "restrict_links k pages
              = Inr (setitem pages k (filter (\<lambda>link. link \<in> set (keys pages)) ls0))"
    by blast
  define ls1 where "ls1 = filter (\<lambda>link. link \<in> set (keys pages)) ls0"
  define pages1 where "pages1 = setitem pages k ls1"
  have k1: "keys pages1 = keys pages"
    using kk by (simp add: pages1_def keys_setitem_present)
  have m1: "map_of pages1 = (map_of pages)(k \<mapsto> ls1)"
    by (simp add: pages1_def map_of_setitem)
  have ok0: "distinct ls0 \<and> k \<notin> set ls0"
    using Cons.prems(2) l0 unfolding links_ok_def by blast
  have ok1: "links_ok pages1"
    unfolding pages1_def
    by (rule links_ok_setitem [OF Cons.prems(2)]) (use ok0 in \<open>simp_all add: ls1_def\<close>)
  have sub1: "set ks \<subseteq> set (keys pages1)" using Cons.prems(1) k1 by simp
  have s1: "set ls1 \<subseteq> set (keys pages)" by (auto simp: ls1_def)
  have d1: "\<forall>p ls. map_of pages1 p = Some ls \<longrightarrow> p \<in> insert k D \<longrightarrow> set ls \<subseteq> set (keys pages1)"
  proof (intro allI impI)
    fix p ls
    assume a: "map_of pages1 p = Some ls" and b: "p \<in> insert k D"
    show "set ls \<subseteq> set (keys pages1)"
    proof (cases "p = k")
      case True
      with a m1 have "ls = ls1" by simp
      with s1 k1 show ?thesis by simp
    next
      case False
      with a m1 have "map_of pages p = Some ls" by simp
      moreover from False b have "p \<in> D" by simp
      ultimately have "set ls \<subseteq> set (keys pages)" using Cons.prems(3) by blast
      with k1 show ?thesis by simp
    qed
  qed
  from Cons.IH [OF sub1 ok1 d1] obtain g where
    g1: "try_fold restrict_links ks pages1 = Inr g" and g2: "keys g = keys pages1"
    and g3: "links_ok g"
    and g4: "\<forall>p ls. map_of g p = Some ls \<longrightarrow> p \<in> insert k D \<union> set ks \<longrightarrow>
               set ls \<subseteq> set (keys pages1)"
    by blast
  have a: "try_fold restrict_links (k # ks) pages = Inr g"
    using r g1 by (simp add: pages1_def ls1_def)
  have b: "keys g = keys pages" using g2 k1 by simp
  have c: "\<forall>p ls. map_of g p = Some ls \<longrightarrow> p \<in> D \<union> set (k # ks) \<longrightarrow>
             set ls \<subseteq> set (keys pages)"
    using g4 k1 by simp
  from a b g3 c show ?case by (intro exI [of _ g] conjI)
qed

lemma crawl_result:
  "\<exists>g. crawl findall directory = Inr g \<and> is_dict g \<and> links_ok g \<and>
       (\<forall>p ls. map_of g p = Some ls \<longrightarrow> set ls \<subseteq> set (keys g))"
proof -
  define pages where "pages = fold (extract_links findall) directory []"
  have "is_dict ([] :: corpus)" and "links_ok []"
    by (simp_all add: is_dict_def keys_def links_ok_def)
  from extract_all_ok [OF this, of findall directory]
  have dp: "is_dict pages" and ok: "links_ok pages" by (simp_all add: pages_def)
  have none: "\<forall>p ls. map_of pages p = Some ls \<longrightarrow> p \<in> {} \<longrightarrow> set ls \<subseteq> set (keys pages)"
    by simp
  from restrict_all [OF subset_refl ok none] obtain g where
    g: "try_fold restrict_links (keys pages) pages = Inr g" "keys g = keys pages" "links_ok g"
       "\<forall>p ls. map_of g p = Some ls \<longrightarrow> p \<in> {} \<union> set (keys pages) \<longrightarrow> set ls \<subseteq> set (keys pages)"
    by blast
  have run: "crawl findall directory = Inr g"
    using g(1) by (simp add: crawl_def pages_def Let_def)
  have dg: "is_dict g" using dp g(2) by (simp add: is_dict_def)
  have "set ls \<subseteq> set (keys g)" if "map_of g p = Some ls" for p ls
  proof -
    from that have "(p, ls) \<in> set g" by (rule map_of_SomeD)
    then have "p \<in> set (keys g)" unfolding keys_def by (simp add: rev_image_eqI)
    with g(2,4) that show ?thesis by simp
  qed
  with run dg g(3) show ?thesis by blast
qed

lemma crawl_entries:
  assumes "crawl findall directory = Inr g" and "(p, ls) \<in> set g"
  shows "is_dict g" and "distinct ls" and "p \<notin> set ls" and "set ls \<subseteq> set (keys g)"
proof -
  from crawl_result [of findall directory] obtain g' where
    r: "crawl findall directory = Inr g'" and dg': "is_dict g'" and ok': "links_ok g'"
    and sub': "\<forall>p ls. map_of g' p = Some ls \<longrightarrow> set ls \<subseteq> set (keys g')"
    by blast
  from r assms(1) have eq: "g' = g" by simp
  show dg: "is_dict g" using dg' eq by simp
  have m: "map_of g p = Some ls"
    using dg assms(2) unfolding is_dict_def keys_def by (simp add: map_of_is_SomeI)
  from ok' eq m show "distinct ls" and "p \<notin> set ls"
    unfolding links_ok_def by blast+
  from sub' eq m show "set ls \<subseteq> set (keys g)" by blast
qed

lemma crawl_valid_graph:
  assumes "crawl findall directory = Inr g"
  shows "valid_graph g"
proof -
  have "is_dict g"
  proof (cases g)
    case Nil
    then show ?thesis by (simp add: is_dict_def keys_def)
  next
    case (Cons e rest)
    obtain p ls where "e = (p, ls)" by (cases e)
    with Cons have "(p, ls) \<in> set g" by simp
    with assms show ?thesis by (rule crawl_entries(1))
  qed
  moreover have "list_all (\<lambda>(p, links). distinct links \<and> p \<notin> set links \<and>
                   set links \<subseteq> set (keys g)) g"
    unfolding list_all_iff
  proof
    fix e assume e: "e \<in> set g"
    obtain p ls where pl: "e = (p, ls)" by (cases e)
    from crawl_entries(2,3,4) [OF assms e [unfolded pl]]
    show "case e of (p, links) \<Rightarrow> distinct links \<and> p \<notin> set links \<and>
            set links \<subseteq> set (keys g)"
      unfolding pl by simp
  qed
  ultimately show ?thesis unfolding valid_graph_def by simp
qed

lemma crawl_example: "crawl example_findall example_directory = Inr scenario_A"
  by (simp add: crawl_def example_directory_def example_findall_def extract_links_def
      endswith_def restrict_links_def getitem_def keys_def scenario_A_def)

section \<open>Claims about transition\_model\<close>

text \<open>
  Claim C2. When the current page is a key of the graph and its link set is empty,
  \<open>transition_model\<close> returns the uniform distribution: every page of the graph, in
  the graph's order, with probability \<open>1/N\<close>, where \<open>N\<close> is the number of pages. The
  graph is not changed. The witness is scenario B of the specification: on
  \<open>{"1.html": {}, "2.html": {"1.html"}}\<close> with damping factor 0.85 and current page
  \<open>1.html\<close> the result is \<open>{"1.html": 0.5, "2.html": 0.5}\<close>.
\<close>

theorem transition_model_dangling_uniform:
  assumes "is_dict (graph w)" and "getitem (graph w) p = Inr []" and "0 < d" and "d < 1"
  shows "transition_model p d w =
           (Inr (map (\<lambda>q. (q, 1 / real (length (graph w)))) (keys (graph w))), w)"
proof -
  have "fold (\<lambda>q pr. setitem pr q (1 / real (length (graph w)))) (keys (graph w)) []
          = map (\<lambda>q. (q, 1 / real (length (graph w)))) (keys (graph w))"
    using fold_setitem_all [where d = "[]" and ks = "keys (graph w)"
        and f = "\<lambda>_. 1 / real (length (graph w))"] assms(1)
    by (simp add: is_dict_def keys_def)
  with transition_model_run_dangling [OF assms(2)] show ?thesis by simp
qed

theorem transition_model_dangling_uniform_witness:
  "is_dict (graph (start scenario_B (\<lambda>_. 0))) \<and>
   getitem (graph (start scenario_B (\<lambda>_. 0))) ''1.html'' = Inr [] \<and>
   (0::real) < 0.85 \<and> (0.85::real) < 1 \<and>
   transition_model ''1.html'' 0.85 (start scenario_B (\<lambda>_. 0)) =
     (Inr [(''1.html'', 0.5), (''2.html'', 0.5)], start scenario_B (\<lambda>_. 0))"
  using transition_model_dangling_uniform [of "start scenario_B (\<lambda>_. 0)" "''1.html''" "0.85"]
  by (simp add: start_def scenario_B_def is_dict_def keys_def getitem_def)

text \<open>
  Claim C3. When the current page \<open>p\<close> is a key of the graph and its link set \<open>L(p)\<close> is
  not empty, \<open>transition_model\<close> returns a mapping \<open>m\<close> in which every page of
  \<open>L(p)\<close> has probability \<open>d/|L(p)| + (1-d)/N\<close> and every page of the graph outside
  \<open>L(p)\<close> has probability \<open>(1-d)/N\<close>; so has \<open>p\<close> itself when it is not among its
  own links.
\<close>

theorem transition_model_linked_rule:
  assumes "getitem (graph w) p = Inr links" and "links \<noteq> []" and "0 < d" and "d < 1"
  shows "\<exists>m. transition_model p d w = (Inr m, w) \<and>
           (\<forall>q \<in> set links.
              getitem m q = Inr (d / real (length links) + (1 - d) / real (length (graph w)))) \<and>
           (\<forall>q \<in> set (keys (graph w)).
              q \<notin> set links \<longrightarrow> getitem m q = Inr ((1 - d) / real (length (graph w)))) \<and>
           (p \<notin> set links \<longrightarrow> getitem m p = Inr ((1 - d) / real (length (graph w))))"
proof -
  define a where "a = d / real (length links) + (1 - d) / real (length (graph w))"
  define b where "b = (1 - d) / real (length (graph w))"
  define m where "m = fold (\<lambda>q pr. if q \<notin> set links then setitem pr q b else pr)
              (keys (graph w)) (fold (\<lambda>q pr. setitem pr q a) links [])"
  have run: "transition_model p d w = (Inr m, w)"
    unfolding m_def a_def b_def by (rule transition_model_run_linked [OF assms(1,2)])
  have look: "map_of m q =
      (if q \<in> set (keys (graph w)) \<and> q \<notin> set links then Some b
       else if q \<in> set links then Some a else None)" for q
    unfolding m_def by (rule linked_lookup)
  have pkey: "p \<in> set (keys (graph w))"
    using assms(1) by (rule getitem_Inr_key)
  have 1: "\<forall>q \<in> set links. getitem m q = Inr a"
    by (simp add: getitem_def look)
  have 2: "\<forall>q \<in> set (keys (graph w)). q \<notin> set links \<longrightarrow> getitem m q = Inr b"
    by (simp add: getitem_def look)
  have 3: "p \<notin> set links \<longrightarrow> getitem m p = Inr b"
    using pkey by (simp add: getitem_def look)
  show ?thesis
    using run 1 2 3 unfolding a_def b_def by (intro exI [of _ m] conjI)
qed

theorem transition_model_linked_rule_witness:
  "getitem (graph (start scenario_A (\<lambda>_. 0))) ''1.html'' = Inr [''2.html''] \<and>
   [''2.html''] \<noteq> [] \<and> (0::real) < 0.85 \<and> (0.85::real) < 1 \<and>
   (\<exists>m. transition_model ''1.html'' 0.85 (start scenario_A (\<lambda>_. 0))
          = (Inr m, start scenario_A (\<lambda>_. 0)) \<and>
        (\<forall>q \<in> set [''2.html''].
           getitem m q = Inr (0.85 / real (length [''2.html''])
             + (1 - 0.85) / real (length (graph (start scenario_A (\<lambda>_. 0)))))) \<and>
        (\<forall>q \<in> set (keys (graph (start scenario_A (\<lambda>_. 0)))).
           q \<notin> set [''2.html''] \<longrightarrow>
           getitem m q = Inr ((1 - 0.85) / real (length (graph (start scenario_A (\<lambda>_. 0)))))) \<and>
        (''1.html'' \<notin> set [''2.html''] \<longrightarrow>
           getitem m ''1.html''
             = Inr ((1 - 0.85) / real (length (graph (start scenario_A (\<lambda>_. 0)))))))"
proof -
  have h1: "getitem (graph (start scenario_A (\<lambda>_. 0))) ''1.html'' = Inr [''2.html'']"
    by (simp add: start_def scenario_A_def getitem_def)
  have h2: "[''2.html''] \<noteq> []" by simp
  have h3: "(0::real) < 0.85" and h4: "(0.85::real) < 1" by simp_all
  from transition_model_linked_rule [OF h1 h2 h3 h4] h1 h2 h3 h4 show ?thesis by (intro conjI)
qed

text \<open>
  Claim C4. On a non-empty valid Link Graph, for a page that is a key and a damping factor
  in (0,1), \<open>transition_model\<close> returns a dictionary whose keys are exactly the pages of
  the graph, whose values are non-negative and whose values sum to 1. The arithmetic of
  the model is exact, so the sum is 1 and in particular within \<open>1e-9\<close> of 1.
\<close>

theorem transition_model_is_distribution:
  assumes "valid_graph (graph w)" and "graph w \<noteq> []" and "p \<in> set (keys (graph w))"
    and "0 < d" and "d < 1"
  shows "\<exists>m. transition_model p d w = (Inr m, w) \<and> is_dict m \<and>
           set (keys m) = set (keys (graph w)) \<and>
           (\<forall>v \<in> set (vals m). 0 \<le> v) \<and>
           sum_list (vals m) = 1 \<and>
           \<bar>sum_list (vals m) - 1\<bar> \<le> 1 / 10 ^ 9"
proof -
  from transition_model_distribution [OF assms(1,3,4,5)] obtain m where
    m: "transition_model p d w = (Inr m, w)" "is_dict m" "set (keys m) = set (keys (graph w))"
       "\<forall>v \<in> set (vals m). 0 \<le> v" "sum_list (vals m) = 1"
    by blast
  from m(5) have "\<bar>sum_list (vals m) - 1\<bar> \<le> 1 / 10 ^ 9" by simp
  with m show ?thesis by blast
qed

theorem transition_model_is_distribution_witness:
  "valid_graph (graph (start scenario_A (\<lambda>_. 0))) \<and>
   graph (start scenario_A (\<lambda>_. 0)) \<noteq> [] \<and>
   ''2.html'' \<in> set (keys (graph (start scenario_A (\<lambda>_. 0)))) \<and>
   (0::real) < 0.85 \<and> (0.85::real) < 1 \<and>
   (\<exists>m. transition_model ''2.html'' 0.85 (start scenario_A (\<lambda>_. 0))
          = (Inr m, start scenario_A (\<lambda>_. 0)) \<and> is_dict m \<and>
        set (keys m) = set (keys (graph (start scenario_A (\<lambda>_. 0)))) \<and>
        (\<forall>v \<in> set (vals m). 0 \<le> v) \<and>
        sum_list (vals m) = 1 \<and>
        \<bar>sum_list (vals m) - 1\<bar> \<le> 1 / 10 ^ 9)"
proof -
  have h1: "valid_graph (graph (start scenario_A (\<lambda>_. 0)))"
    by (simp add: graph_start valid_scenario_A)
  have h2: "graph (start scenario_A (\<lambda>_. 0)) \<noteq> []"
    by (simp add: graph_start scenario_A_def)
  have h3: "''2.html'' \<in> set (keys (graph (start scenario_A (\<lambda>_. 0))))"
    by (simp add: graph_start scenario_A_def keys_def)
  have h4: "(0::real) < 0.85" and h5: "(0.85::real) < 1" by simp_all
  from transition_model_is_distribution [OF h1 h2 h3 h4 h5] h1 h2 h3 h4 h5 show ?thesis by (intro conjI)
qed

text \<open>
  Claim C7. On a non-empty graph and for a damping factor in (0,1), \<open>transition_model\<close>
  raises an error exactly when the page is not a key of the graph; when the page is a key
  it returns a mapping; and in both cases the state after the call, the graph object and
  the random generator, is the state before it.
\<close>

theorem transition_model_fails_iff_missing:
  assumes "graph w \<noteq> []" and "0 < d" and "d < 1"
  shows "((\<exists>e. fst (transition_model p d w) = Inl e) \<longleftrightarrow> p \<notin> set (keys (graph w))) \<and>
         (p \<in> set (keys (graph w)) \<longrightarrow> (\<exists>m. fst (transition_model p d w) = Inr m)) \<and>
         snd (transition_model p d w) = w"
proof (cases "p \<in> set (keys (graph w))")
  case True
  from transition_model_returns [OF True, of d] obtain m where
    "transition_model p d w = (Inr m, w)" ..
  with True show ?thesis by simp
next
  case False
  then have "transition_model p d w = (Inl KeyError, w)"
    by (simp add: transition_model_run_missing getitem_not_key)
  with False show ?thesis by simp
qed

theorem transition_model_fails_iff_missing_witness:
  "graph (start scenario_B (\<lambda>_. 0)) \<noteq> [] \<and> (0::real) < 0.85 \<and> (0.85::real) < 1 \<and>
   ''3.html'' \<notin> set (keys (graph (start scenario_B (\<lambda>_. 0)))) \<and>
   (\<exists>e. fst (transition_model ''3.html'' 0.85 (start scenario_B (\<lambda>_. 0))) = Inl e) \<and>
   snd (transition_model ''3.html'' 0.85 (start scenario_B (\<lambda>_. 0)))
     = start scenario_B (\<lambda>_. 0) \<and>
   ''2.html'' \<in> set (keys (graph (start scenario_B (\<lambda>_. 0)))) \<and>
   (\<exists>m. fst (transition_model ''2.html'' 0.85 (start scenario_B (\<lambda>_. 0))) = Inr m) \<and>
   snd (transition_model ''2.html'' 0.85 (start scenario_B (\<lambda>_. 0)))
     = start scenario_B (\<lambda>_. 0)"
proof -
  have h1: "graph (start scenario_B (\<lambda>_. 0)) \<noteq> []"
    by (simp add: graph_start scenario_B_def)
  have h2: "(0::real) < 0.85" and h3: "(0.85::real) < 1" by simp_all
  have k3: "''3.html'' \<notin> set (keys (graph (start scenario_B (\<lambda>_. 0))))"
    by (simp add: graph_start scenario_B_def keys_def)
  have k2: "''2.html'' \<in> set (keys (graph (start scenario_B (\<lambda>_. 0))))"
    by (simp add: graph_start scenario_B_def keys_def)
  from transition_model_fails_iff_missing [OF h1 h2 h3, of "''3.html''"] k3
  have a: "\<exists>e. fst (transition_model ''3.html'' 0.85 (start scenario_B (\<lambda>_. 0))) = Inl e"
    and b: "snd (transition_model ''3.html'' 0.85 (start scenario_B (\<lambda>_. 0)))
              = start scenario_B (\<lambda>_. 0)"
    by simp_all
  from transition_model_fails_iff_missing [OF h1 h2 h3, of "''2.html''"] k2
  have c: "\<exists>m. fst (transition_model ''2.html'' 0.85 (start scenario_B (\<lambda>_. 0))) = Inr m"
    and d: "snd (transition_model ''2.html'' 0.85 (start scenario_B (\<lambda>_. 0)))
              = start scenario_B (\<lambda>_. 0)"
    by simp_all
  from h1 h2 h3 k3 a b k2 c d show ?thesis by (intro conjI)
qed

text \<open>
  Claim C8, as amended. No function of the program checks the damping factor. For every
  graph, every page that is a key of the graph and every damping factor, inside or outside
  (0,1), \<open>transition_model\<close> returns a mapping and does not fail. The counterexample is
  the damping factor 2 on scenario A of the specification: the call returns a mapping with
  the values 3/2 and -1/2.
\<close>

theorem transition_model_ignores_damping:
  assumes "p \<in> set (keys (graph w))"
  shows "\<exists>m. transition_model p d w = (Inr m, w)"
  using assms by (rule transition_model_returns)

theorem transition_model_ignores_damping_witness:
  "''2.html'' \<in> set (keys (graph (start scenario_B (\<lambda>_. 0)))) \<and>
   (\<exists>m. transition_model ''2.html'' (- 1) (start scenario_B (\<lambda>_. 0))
          = (Inr m, start scenario_B (\<lambda>_. 0)))"
proof -
  have h: "''2.html'' \<in> set (keys (graph (start scenario_B (\<lambda>_. 0))))"
    by (simp add: graph_start scenario_B_def keys_def)
  from transition_model_ignores_damping [OF h, of "- 1"] h show ?thesis by (intro conjI)
qed

theorem transition_model_damping_counterexample:
  "(2::real) \<notin> {0<..<1} \<and>
   transition_model ''1.html'' 2 (start scenario_A (\<lambda>_. 0)) =
     (Inr [(''2.html'', 3/2), (''1.html'', - 1/2)], start scenario_A (\<lambda>_. 0))"
proof -
  have g: "getitem (graph (start scenario_A (\<lambda>_. 0))) ''1.html'' = Inr [''2.html'']"
    by (simp add: start_def scenario_A_def getitem_def)
  show ?thesis
    using transition_model_run_linked [OF g, of 2]
    by (simp add: start_def scenario_A_def keys_def)
qed

section \<open>Claims about sample\_pagerank and iterate\_pagerank\<close>



text \<open>
  Claim C6, as amended. \<open>sample_pagerank\<close> has no check of its arguments. When the graph
  is empty or the sample count is 0 it raises ZeroDivisionError, from the division of
  line 102 or of line 114, for every damping factor and every generator. A negative sample
  count is not rejected: the counterexample is the call with \<open>n = -1\<close> on the single-page
  graph, which returns the mapping that gives the page the value 0.
\<close>

theorem sample_pagerank_fails_on_empty_or_zero:
  assumes "graph w = [] \<or> n = 0"
  shows "fst (sample_pagerank d n w) = Inl ZeroDivisionError"
proof (cases "graph w = []")
  case True
  then show ?thesis by (simp add: sample_pagerank_empty)
next
  case False
  with assms have "n = 0" by simp
  with False show ?thesis by (simp add: sample_pagerank_zero)
qed

theorem sample_pagerank_fails_on_empty_or_zero_witness:
  "graph (start [] (\<lambda>_. 0)) = [] \<and>
   fst (sample_pagerank 0.85 10000 (start [] (\<lambda>_. 0))) = Inl ZeroDivisionError \<and>
   (0::int) = 0 \<and>
   fst (sample_pagerank 0.85 0 (start scenario_A (\<lambda>_. 0))) = Inl ZeroDivisionError"
proof -
  have h1: "graph (start [] (\<lambda>_. 0)) = []" by (simp add: graph_start)
  from sample_pagerank_fails_on_empty_or_zero [of "start [] (\<lambda>_. 0)" 10000 "0.85"] h1
  have a: "fst (sample_pagerank 0.85 10000 (start [] (\<lambda>_. 0))) = Inl ZeroDivisionError"
    by simp
  from sample_pagerank_fails_on_empty_or_zero [of "start scenario_A (\<lambda>_. 0)" 0 "0.85"]
  have b: "fst (sample_pagerank 0.85 0 (start scenario_A (\<lambda>_. 0))) = Inl ZeroDivisionError"
    by simp
  from h1 a b show ?thesis by simp
qed

theorem sample_pagerank_negative_counterexample:
  "(- 1::int) \<le> 0 \<and>
   fst (sample_pagerank 0.85 (- 1) (start scenario_C (\<lambda>_. 0))) = Inr [(''1.html'', 0)]"
proof -
  have h1: "graph (start scenario_C (\<lambda>_. 0)) \<noteq> []"
    by (simp add: graph_start scenario_C_def)
  have h2: "is_dict (graph (start scenario_C (\<lambda>_. 0)))"
    by (simp add: graph_start scenario_C_def is_dict_def keys_def)
  have h3: "(- 1::int) < 0" by simp
  from sample_pagerank_negative [OF h1 h2 h3, of "0.85"] show ?thesis
    by (simp add: graph_start scenario_C_def keys_def)
qed

text \<open>
  Claim C1. The body of \<open>iterate_pagerank\<close> is \<open>raise NotImplementedError\<close>: on every
  graph and every damping factor the call raises and returns no rank mapping, although
  the function's docstring promises the converged ranks. The state is not changed.
\<close>

theorem iterate_pagerank_not_implemented:
  "iterate_pagerank d w = (Inl NotImplementedError, w)"
  by (simp add: iterate_pagerank_def py_raise_def)

text \<open>
  Claim C9. On the single-page graph \<open>{"1.html": {}}\<close> \<open>sample_pagerank\<close> returns
  \<open>{"1.html": 1.0}\<close> (shown here for damping factor 0.85 and 10000 samples; the lemma
  \<open>sample_pagerank_single_page\<close> covers every damping factor in (0,1), every
  \<open>n \<ge> 1\<close> and every generator), but \<open>iterate_pagerank\<close> raises NotImplementedError
  instead of returning the same mapping.
\<close>

theorem single_page_estimators:
  "fst (sample_pagerank 0.85 10000 (start scenario_C (\<lambda>_. 0))) = Inr [(''1.html'', 1)] \<and>
   fst (iterate_pagerank 0.85 (start scenario_C (\<lambda>_. 0))) = Inl NotImplementedError"
proof -
  have "fst (sample_pagerank 0.85 10000 (start scenario_C (\<lambda>_. 0))) = Inr [(''1.html'', 1)]"
    by (rule sample_pagerank_single_page) (simp_all add: graph_start)
  then show ?thesis by (simp add: iterate_pagerank_def py_raise_def)
qed

section \<open>Claims about crawl\<close>

text \<open>
  Claim C10. Every graph that \<open>crawl\<close> returns satisfies the Link Graph invariant: no
  page appears in its own link set, and every page of a link set is a key of the returned
  dictionary. This holds for every directory content and whatever links the regular
  expression finds.
\<close>

theorem crawl_link_graph_invariant:
  assumes "crawl findall directory = Inr g"
  shows "\<forall>(p, links) \<in> set g. p \<notin> set links \<and> set links \<subseteq> set (keys g)"
proof
  fix e assume e: "e \<in> set g"
  obtain p ls where pl: "e = (p, ls)" by (cases e)
  from crawl_entries(3,4) [OF assms e [unfolded pl]]
  show "case e of (p, links) \<Rightarrow> p \<notin> set links \<and> set links \<subseteq> set (keys g)"
    unfolding pl by simp
qed

theorem crawl_link_graph_invariant_witness:
  "crawl example_findall example_directory = Inr scenario_A \<and>
   (''1.html'', [''2.html'']) \<in> set scenario_A \<and>
   ''1.html'' \<notin> set [''2.html''] \<and> set [''2.html''] \<subseteq> set (keys scenario_A)"
proof -
  have h: "crawl example_findall example_directory = Inr scenario_A"
    by (rule crawl_example)
  have m: "(''1.html'', [''2.html'']) \<in> set scenario_A"
    by (simp add: scenario_A_def)
  from crawl_link_graph_invariant [OF h] m
  have "''1.html'' \<notin> set [''2.html''] \<and> set [''2.html''] \<subseteq> set (keys scenario_A)"
    by blast
  with h m show ?thesis by (intro conjI) simp_all
qed

end
